theory Spec2Isabelle
  imports Main
begin

section \<open>The observable world of a C++ program using \<^verbatim>\<open>defer.hpp\<close>\<close>

text \<open>
  The header \<^verbatim>\<open>include/defer/defer.hpp\<close> defines the class \<^verbatim>\<open>defer::detail::Defer\<close>,
  the tag type \<^verbatim>\<open>DeferTaskTag\<close> with its \<^verbatim>\<open>operator|\<close>, and the macros
  \<^verbatim>\<open>__DEFER_CONCAT__\<close>, \<^verbatim>\<open>__DEFER_NEWBIE__\<close> and \<^verbatim>\<open>defer\<close>.

  A C++ function call either returns or leaves by an exception; in both cases it may
  have changed the variables it can reach. The type parameter \<open>'w\<close> is whatever the
  call can change. Calls that never return and calls that end the process themselves
  (\<^verbatim>\<open>std::abort\<close>, \<^verbatim>\<open>std::exit\<close>) are outside this model.
\<close>

datatype exn = bad_function_call | other_exception nat

datatype 'w result = Returns 'w | Raises exn 'w

text \<open>The state a call leaves behind, whichever way it ended.\<close>

fun state_of :: "'w result \<Rightarrow> 'w" where
  "state_of (Returns w) = w"
| "state_of (Raises e w) = w"

text \<open>
  A function declared \<^verbatim>\<open>noexcept\<close> either completes or, when an exception tries to
  leave it, calls \<^verbatim>\<open>std::terminate\<close>.
\<close>

datatype 'w noexcept_result = Completes 'w | Terminate 'w

text \<open>
  The world is the memory of the enclosing program (\<open>mem\<close>, of any type \<open>'s\<close>) together
  with a log of the invocations of callable targets (\<open>trace\<close>). The log is ghost state:
  only \<open>function_call\<close> below appends to it, user code sees \<open>mem\<close> only.
\<close>

datatype event = Call nat

record 's world =
  trace :: "event list"
  mem :: 's

text \<open>The body of a zero-argument, \<^verbatim>\<open>void\<close> callable, as a function of the memory it runs in.\<close>

type_synonym 's callable = "'s \<Rightarrow> 's result"

section \<open>\<^verbatim>\<open>using DeferTaskType = std::function<void()>\<close>\<close>

text \<open>
  A \<^verbatim>\<open>std::function<void()>\<close> is empty or holds a target. The number of a target
  identifies it in the trace. \<^verbatim>\<open>operator()\<close> on an empty function throws
  \<^verbatim>\<open>std::bad_function_call\<close>; otherwise it invokes the target.
\<close>

datatype 's DeferTaskType = EmptyFunction | Target nat "'s callable"

fun function_call :: "'s DeferTaskType \<Rightarrow> 's world \<Rightarrow> 's world result" where
  "function_call EmptyFunction w = Raises bad_function_call w"
| "function_call (Target l f) w =
     (case f (mem w) of
        Returns m \<Rightarrow> Returns \<lparr>trace = trace w @ [Call l], mem = m\<rparr>
      | Raises e m \<Rightarrow> Raises e \<lparr>trace = trace w @ [Call l], mem = m\<rparr>)"

text \<open>
  \<^verbatim>\<open>std::move\<close> into a new \<^verbatim>\<open>std::function\<close>: the new object holds the target, the
  source is left empty. No target is invoked.
\<close>

definition function_move :: "'s DeferTaskType \<Rightarrow> 's DeferTaskType \<times> 's DeferTaskType" where
  "function_move src = (src, EmptyFunction)"

section \<open>\<^verbatim>\<open>try\<close>, \<^verbatim>\<open>catch (...)\<close> and \<^verbatim>\<open>noexcept\<close>\<close>

definition try_catch_all :: "('w \<Rightarrow> 'w result) \<Rightarrow> ('w \<Rightarrow> 'w result) \<Rightarrow> 'w \<Rightarrow> 'w result" where
  "try_catch_all body handler w =
     (case body w of
        Returns w' \<Rightarrow> Returns w'
      | Raises e w' \<Rightarrow> handler w')"

text \<open>The empty compound statement \<^verbatim>\<open>{}\<close>.\<close>

definition empty_block :: "'w \<Rightarrow> 'w result" where
  "empty_block w = Returns w"

definition noexcept :: "('w \<Rightarrow> 'w result) \<Rightarrow> 'w \<Rightarrow> 'w noexcept_result" where
  "noexcept f w =
     (case f w of
        Returns w' \<Rightarrow> Completes w'
      | Raises e w' \<Rightarrow> Terminate w')"

section \<open>\<^verbatim>\<open>class Defer\<close>\<close>

record 's Defer =
  m_task :: "'s DeferTaskType"

text \<open>
  \<^verbatim>\<open>Defer(DeferTaskType task) : m_task(std::move(task)) {}\<close>: the parameter is moved
  into the member, the body is empty, the moved-from parameter is destroyed.
\<close>

definition Defer_ctor :: "'s DeferTaskType \<Rightarrow> 's world \<Rightarrow> 's Defer \<times> 's world" where
  "Defer_ctor task w =
     (case function_move task of (stored, moved_from) \<Rightarrow> (\<lparr>m_task = stored\<rparr>, w))"

text \<open>\<^verbatim>\<open>~Defer() noexcept { try { m_task(); } catch (...) {} }\<close>\<close>

definition Defer_dtor :: "'s Defer \<Rightarrow> 's world \<Rightarrow> 's world noexcept_result" where
  "Defer_dtor this = noexcept (try_catch_all (function_call (m_task this)) empty_block)"



section \<open>\<^verbatim>\<open>struct DeferTaskTag\<close> and \<^verbatim>\<open>operator|\<close>\<close>

datatype DeferTaskTag = DeferTaskTag

text \<open>
  \<^verbatim>\<open>Defer operator|(DeferTaskTag, DeferTaskType task) { return Defer(std::move(task)); }\<close>
  The returned object is constructed in place in the caller's variable (one object, as
  C++17 guarantees and earlier compilers do by default).
\<close>

definition operator_pipe :: "DeferTaskTag \<Rightarrow> 's DeferTaskType \<Rightarrow> 's world \<Rightarrow> 's Defer \<times> 's world" where
  "operator_pipe tag task w = Defer_ctor (fst (function_move task)) w"

section \<open>The macros\<close>

text \<open>
  \<^verbatim>\<open>__LINE__\<close> expands to the decimal integer literal of the current source line.
\<close>

definition digit_char :: "nat \<Rightarrow> char" where
  "digit_char d = ''0123456789'' ! d"

fun decimal :: "nat \<Rightarrow> string" where
  "decimal n = (if n < 10 then [digit_char n] else decimal (n div 10) @ [digit_char (n mod 10)])"

declare decimal.simps [simp del]

text \<open>
  \<^verbatim>\<open>__DEFER_CONCAT__(a, b)\<close> expands its arguments through two helper macros and then
  pastes them with \<^verbatim>\<open>a ## b\<close>.
\<close>

definition DEFER_CONCAT :: "string \<Rightarrow> string \<Rightarrow> string" where
  "DEFER_CONCAT a b = a @ b"

text \<open>\<^verbatim>\<open>#define __DEFER_NEWBIE__ __DEFER_CONCAT__(__defer_newbie_, __LINE__)\<close>\<close>

definition DEFER_NEWBIE :: "nat \<Rightarrow> string" where
  "DEFER_NEWBIE line = DEFER_CONCAT ''__defer_newbie_'' (decimal line)"

text \<open>
  \<^verbatim>\<open>#define defer const auto __DEFER_NEWBIE__ = ::defer::detail::DeferTaskTag{} | [&]() mutable -> void\<close>

  Followed by a block, the macro declares a local variable named by \<^verbatim>\<open>__DEFER_NEWBIE__\<close>
  and initialises it with the guard that \<^verbatim>\<open>operator|\<close> makes from a lambda. The lambda
  captures by reference (\<^verbatim>\<open>[&]\<close>): its closure holds no values of its own, and calling
  it runs the block on the variables of the enclosing scope as they are at the call.
  So the target is the block itself, a function of the memory at invocation. The target
  is numbered with the source line of the statement.
\<close>

definition defer_macro :: "nat \<Rightarrow> 's callable \<Rightarrow> 's world \<Rightarrow> (string \<times> 's Defer) \<times> 's world" where
  "defer_macro line block w =
     (case operator_pipe DeferTaskTag (Target line block) w of
        (guard, w') \<Rightarrow> ((DEFER_NEWBIE line, guard), w'))"

section \<open>Scopes\<close>

text \<open>
  The statements of a function body that matter for a guard: code that declares no
  guard (\<open>Exec\<close>: it changes the memory and may throw), an early return under a
  condition, a \<^verbatim>\<open>defer { ... };\<close> statement on a given source line, and a nested compound
  statement.
\<close>

datatype 's stmt =
    Exec "'s callable"
  | ReturnIf "'s \<Rightarrow> bool"
  | DeferStmt nat "'s callable"
  | Block "'s stmt list"

text \<open>How control leaves a compound statement.\<close>

datatype completion = FallThrough | Returned | Thrown exn | Aborted

text \<open>
  Leaving a scope destroys its local variables in the reverse order of their
  declaration, whichever way the scope is left: by reaching its end, by a
  \<^verbatim>\<open>return\<close>, or by an exception on its way to a handler. The list of locals is a
  stack, the last declared first. After \<^verbatim>\<open>std::terminate\<close> nothing runs.
\<close>

fun unwind :: "completion \<Rightarrow> (string \<times> 's Defer) list \<Rightarrow> 's world \<Rightarrow> completion \<times> 's world" where
  "unwind Aborted locals w = (Aborted, w)"
| "unwind c [] w = (c, w)"
| "unwind c ((name, guard) # locals) w =
     (case Defer_dtor guard w of
        Completes w' \<Rightarrow> unwind c locals w'
      | Terminate w' \<Rightarrow> (Aborted, w'))"

text \<open>
  \<open>run\<close> executes the statements of one compound statement in order, pushing each
  declared guard on the stack of locals, and stops at the first statement that does
  not fall through. A nested compound statement runs with its own locals and unwinds
  them before the enclosing statements go on.
\<close>

fun run :: "'s stmt list \<Rightarrow> (string \<times> 's Defer) list \<Rightarrow> 's world \<Rightarrow>
    completion \<times> (string \<times> 's Defer) list \<times> 's world" where
  "run [] locals w = (FallThrough, locals, w)"
| "run (Exec f # rest) locals w =
     (case f (mem w) of
        Returns m \<Rightarrow> run rest locals (w\<lparr>mem := m\<rparr>)
      | Raises e m \<Rightarrow> (Thrown e, locals, w\<lparr>mem := m\<rparr>))"
| "run (ReturnIf cond # rest) locals w =
     (if cond (mem w) then (Returned, locals, w) else run rest locals w)"
| "run (DeferStmt line block # rest) locals w =
     (case defer_macro line block w of
        (local, w') \<Rightarrow> run rest (local # locals) w')"
| "run (Block body # rest) locals w =
     (case run body [] w of
        (c, inner, w') \<Rightarrow>
          (case unwind c inner w' of
             (FallThrough, w'') \<Rightarrow> run rest locals w''
           | (c', w'') \<Rightarrow> (c', locals, w'')))"

definition exec_block :: "'s stmt list \<Rightarrow> 's world \<Rightarrow> completion \<times> 's world" where
  "exec_block body w = (case run body [] w of (c, locals, w') \<Rightarrow> unwind c locals w')"

text \<open>
  The names a compound statement declares directly. Declaring a name twice in one
  scope is ill-formed: such a program does not compile.
\<close>

fun declared_names :: "'s stmt list \<Rightarrow> string list" where
  "declared_names [] = []"
| "declared_names (DeferStmt line block # rest) = DEFER_NEWBIE line # declared_names rest"
| "declared_names (s # rest) = declared_names rest"

definition redeclaration_free :: "'s stmt list \<Rightarrow> bool" where
  "redeclaration_free body = distinct (declared_names body)"

text \<open>The source lines of the \<^verbatim>\<open>defer\<close> statements directly in a compound statement.\<close>

fun defer_lines :: "'s stmt list \<Rightarrow> nat list" where
  "defer_lines [] = []"
| "defer_lines (DeferStmt line block # rest) = line # defer_lines rest"
| "defer_lines (s # rest) = defer_lines rest"

text \<open>
  The \<^verbatim>\<open>defer\<close> statements directly in a compound statement, each with its source
  line and its block.
\<close>

fun defer_stmts :: "'s stmt list \<Rightarrow> (nat \<times> 's callable) list" where
  "defer_stmts [] = []"
| "defer_stmts (DeferStmt line block # rest) = (line, block) # defer_stmts rest"
| "defer_stmts (s # rest) = defer_stmts rest"

text \<open>The events that destroying a stack of guards logs, in order.\<close>

fun task_events :: "'s DeferTaskType \<Rightarrow> event list" where
  "task_events EmptyFunction = []"
| "task_events (Target l f) = [Call l]"

definition guard_events :: "(string \<times> 's Defer) list \<Rightarrow> event list" where
  "guard_events locals = concat (map (\<lambda>(name, guard). task_events (m_task guard)) locals)"

section \<open>Basic facts about the destructor and about scopes\<close>

lemma Defer_dtor_Completes:
  "Defer_dtor g w = Completes (state_of (function_call (m_task g) w))"
  by (simp add: Defer_dtor_def noexcept_def try_catch_all_def empty_block_def split: result.splits)

lemma trace_function_call:
  "trace (state_of (function_call t w)) = trace w @ task_events t"
  by (cases t) (simp_all split: result.splits)

lemma mem_function_call_Target:
  "mem (state_of (function_call (Target l f) w)) = state_of (f (mem w))"
  by (simp split: result.splits)

lemma unwind_fst: "c \<noteq> Aborted \<Longrightarrow> fst (unwind c locals w) = c"
  by (induction c locals w rule: unwind.induct) (simp_all add: Defer_dtor_Completes)

lemma unwind_trace:
  "c \<noteq> Aborted \<Longrightarrow> trace (snd (unwind c locals w)) = trace w @ guard_events locals"
  by (induction c locals w rule: unwind.induct)
     (simp_all add: Defer_dtor_Completes trace_function_call guard_events_def)

lemma unwind_Cons:
  "c \<noteq> Aborted \<Longrightarrow>
     unwind c ((n, g) # locals) w = unwind c locals (state_of (function_call (m_task g) w))"
  by (cases c) (simp_all add: Defer_dtor_Completes)

lemma unwind_append:
  "c \<noteq> Aborted \<Longrightarrow> unwind c (a @ b) w = unwind c b (snd (unwind c a w))"
proof (induction a arbitrary: w)
  case Nil
  then show ?case by (cases c) simp_all
next
  case (Cons x a)
  then show ?case by (cases x) (simp add: unwind_Cons)
qed

lemma defer_macro_eq:
  "defer_macro l b w = ((DEFER_NEWBIE l, \<lparr>m_task = Target l b\<rparr>), w)"
  by (simp add: defer_macro_def operator_pipe_def Defer_ctor_def function_move_def)

lemma run_not_Aborted: "fst (run ss locals w) \<noteq> Aborted"
proof (induction ss locals w rule: run.induct)
  case (5 body rest locals w)
  obtain c inner w' where r: "run body [] w = (c, inner, w')" by (cases "run body [] w")
  with 5(1) have c: "c \<noteq> Aborted" by simp
  obtain c' w'' where u: "unwind c inner w' = (c', w'')" by (cases "unwind c inner w'")
  with c unwind_fst [of c inner w'] have c': "c' = c" by simp
  show ?case
  proof (cases "c = FallThrough")
    case True
    with 5(2) [OF r [symmetric] refl u [symmetric]] r u c' show ?thesis by simp
  next
    case False
    with r u c c' show ?thesis by (cases c) auto
  qed
qed (auto simp: defer_macro_eq split: result.splits)

lemma run_stack_gen:
  "run ss (new0 @ locals) w = (case run ss new0 w of (c, new, w') \<Rightarrow> (c, new @ locals, w'))"
proof (induction ss new0 w rule: run.induct)
  case (4 line block rest new0 w)
  from 4 [of "(DEFER_NEWBIE line, \<lparr>m_task = Target line block\<rparr>)" w]
  show ?case by (simp add: defer_macro_eq)
next
  case (5 body rest new0 w)
  then show ?case
    by (auto split: prod.splits completion.splits)
qed (auto split: result.splits)

lemma run_stack:
  "run ss locals w = (case run ss [] w of (c, new, w') \<Rightarrow> (c, new @ locals, w'))"
  using run_stack_gen [of ss "[]" locals w] by simp

lemma run_append:
  "run (a @ b) locals w =
     (case run a locals w of
        (FallThrough, locals', w') \<Rightarrow> run b locals' w'
      | r \<Rightarrow> r)"
proof (induction a locals w rule: run.induct)
  case (4 line block rest locals w)
  from 4 [of "(DEFER_NEWBIE line, \<lparr>m_task = Target line block\<rparr>)" w]
  show ?case by (simp add: defer_macro_eq)
next
  case (5 body rest locals w)
  then show ?case
    by (auto split: prod.splits completion.splits)
qed (auto split: result.splits)

lemma exec_block_not_Aborted: "fst (exec_block body w) \<noteq> Aborted"
proof -
  obtain c locals w' where r: "run body [] w = (c, locals, w')" by (cases "run body [] w")
  with run_not_Aborted [of body "[]" w] have "c \<noteq> Aborted" by simp
  with r show ?thesis by (simp add: exec_block_def unwind_fst)
qed

lemma exec_block_defer:
  assumes "run pre [] w = (FallThrough, ps, w1)"
  shows "exec_block (pre @ DeferStmt l b # rest) w =
     (case exec_block rest w1 of
        (c, w2) \<Rightarrow> unwind c ps (state_of (function_call (Target l b) w2)))"
proof -
  let ?g = "(DEFER_NEWBIE l, \<lparr>m_task = Target l b\<rparr>)"
  obtain c rs w' where r: "run rest [] w1 = (c, rs, w')" by (cases "run rest [] w1")
  with run_not_Aborted [of rest "[]" w1] have c: "c \<noteq> Aborted" by simp
  have "run (pre @ DeferStmt l b # rest) [] w = (c, rs @ ?g # ps, w')"
    using assms r run_stack [of rest "?g # ps" w1]
    by (simp add: run_append defer_macro_eq)
  then have "exec_block (pre @ DeferStmt l b # rest) w = unwind c (rs @ ?g # ps) w'"
    by (simp add: exec_block_def)
  also have "\<dots> = unwind c (?g # ps) (snd (unwind c rs w'))"
    using c by (rule unwind_append)
  also have "\<dots> = unwind c ps (state_of (function_call (Target l b) (snd (unwind c rs w'))))"
    using c by (simp add: unwind_Cons)
  finally have whole: "exec_block (pre @ DeferStmt l b # rest) w =
      unwind c ps (state_of (function_call (Target l b) (snd (unwind c rs w'))))" .
  have "exec_block rest w1 = unwind c rs w'"
    using r by (simp add: exec_block_def)
  moreover have "unwind c rs w' = (c, snd (unwind c rs w'))"
    using c unwind_fst [of c rs w'] by (simp add: prod_eq_iff)
  ultimately have "exec_block rest w1 = (c, snd (unwind c rs w'))" by simp
  with whole show ?thesis by simp
qed


lemma run_Block:
  "run (Block body # rest) locals w =
     (case exec_block body w of
        (FallThrough, w') \<Rightarrow> run rest locals w'
      | (c, w') \<Rightarrow> (c, locals, w'))"
  by (simp add: exec_block_def split: prod.splits completion.splits)

lemma exec_block_defer_fst:
  assumes "run pre [] w = (FallThrough, ps, w1)"
  shows "fst (exec_block (pre @ DeferStmt l b # rest) w) = fst (exec_block rest w1)"
proof -
  obtain c w2 where r: "exec_block rest w1 = (c, w2)" by (cases "exec_block rest w1")
  with exec_block_not_Aborted [of rest w1] have "c \<noteq> Aborted" by simp
  with r show ?thesis by (simp add: exec_block_defer [OF assms] unwind_fst)
qed

lemma exec_block_defer_trace:
  assumes "run pre [] w = (FallThrough, ps, w1)"
  shows "trace (snd (exec_block (pre @ DeferStmt l b # rest) w)) =
           trace (snd (exec_block rest w1)) @ [Call l] @ guard_events ps"
proof -
  obtain c w2 where r: "exec_block rest w1 = (c, w2)" by (cases "exec_block rest w1")
  with exec_block_not_Aborted [of rest w1] have "c \<noteq> Aborted" by simp
  with r show ?thesis
    by (simp add: exec_block_defer [OF assms] unwind_trace trace_function_call
          del: function_call.simps)
qed

lemma run_Nil_eq: "run [] [] w = (FallThrough, [], w)"
  by simp

lemma exec_block_defer_head:
  "exec_block (DeferStmt l b # rest) w =
     (fst (exec_block rest w), state_of (function_call (Target l b) (snd (exec_block rest w))))"
proof -
  obtain c w2 where r: "exec_block rest w = (c, w2)" by (cases "exec_block rest w")
  with exec_block_not_Aborted [of rest w] have "c \<noteq> Aborted" by simp
  with r exec_block_defer [OF run_Nil_eq, of l b rest w] show ?thesis
    by (cases c) (simp_all del: function_call.simps)
qed

lemma run_trace_mono:
  "\<exists>xs. trace (snd (snd (run ss locals w))) = trace w @ xs"
proof (induction ss locals w rule: run.induct)
  case (5 body rest locals w)
  obtain c inner w' where r: "run body [] w = (c, inner, w')" by (cases "run body [] w")
  with run_not_Aborted [of body "[]" w] have c: "c \<noteq> Aborted" by simp
  from 5(1) r obtain xs where xs: "trace w' = trace w @ xs" by auto
  obtain c' w'' where u: "unwind c inner w' = (c', w'')" by (cases "unwind c inner w'")
  with c unwind_fst [of c inner w'] have c': "c' = c" by simp
  from u c unwind_trace [of c inner w'] xs
  have t: "trace w'' = trace w @ xs @ guard_events inner" by simp
  show ?case
  proof (cases "c = FallThrough")
    case True
    with 5(2) [OF r [symmetric] refl u [symmetric]] c'
    obtain ys where "trace (snd (snd (run rest locals w''))) = trace w'' @ ys" by auto
    with True r u c' t show ?thesis by simp
  next
    case False
    with r u c c' t show ?thesis by (cases c) auto
  qed
qed (auto simp: defer_macro_eq split: result.splits)

section \<open>Basic facts about the names\<close>

lemma digit_char_inj:
  assumes "d < 10" and "d' < 10" and "digit_char d = digit_char d'"
  shows "d = d'"
proof -
  have "distinct ''0123456789''" by simp
  moreover have "d < length ''0123456789''" and "d' < length ''0123456789''"
    using assms by simp_all
  ultimately show ?thesis
    using assms(3) unfolding digit_char_def by (simp only: nth_eq_iff_index_eq)
qed

lemma decimal_length: "10 \<le> n \<Longrightarrow> 2 \<le> length (decimal n)"
  by (subst decimal.simps, simp, subst decimal.simps, simp)

lemma decimal_inj: "decimal n = decimal m \<Longrightarrow> n = m"
proof (induction n arbitrary: m rule: decimal.induct)
  case (1 n)
  show ?case
  proof (cases "n < 10")
    case small_n: True
    show ?thesis
    proof (cases "m < 10")
      case True
      with small_n "1.prems" have "digit_char n = digit_char m"
        by (simp add: decimal.simps)
      with small_n True show ?thesis by (rule digit_char_inj)
    next
      case False
      then have "2 \<le> length (decimal m)" by (simp add: decimal_length)
      moreover from small_n have "length (decimal n) = 1" by (simp add: decimal.simps)
      ultimately show ?thesis using "1.prems" by simp
    qed
  next
    case big_n: False
    show ?thesis
    proof (cases "m < 10")
      case True
      then have "length (decimal m) = 1" by (simp add: decimal.simps)
      moreover from big_n have "2 \<le> length (decimal n)" by (simp add: decimal_length)
      ultimately show ?thesis using "1.prems" by simp
    next
      case False
      have n: "decimal n = decimal (n div 10) @ [digit_char (n mod 10)]"
        using big_n by (subst decimal.simps) simp
      have m: "decimal m = decimal (m div 10) @ [digit_char (m mod 10)]"
        using False by (subst decimal.simps) simp
      from "1.prems" n m have tens: "decimal (n div 10) = decimal (m div 10)"
        and units: "digit_char (n mod 10) = digit_char (m mod 10)" by simp_all
      from "1.IH" [OF big_n tens] have q: "n div 10 = m div 10" .
      have "n mod 10 = m mod 10"
        by (rule digit_char_inj [OF _ _ units]) simp_all
      with q show ?thesis by (metis div_mult_mod_eq)
    qed
  qed
qed

lemma DEFER_NEWBIE_eq_iff: "DEFER_NEWBIE l = DEFER_NEWBIE l' \<longleftrightarrow> l = l'"
  by (auto simp: DEFER_NEWBIE_def DEFER_CONCAT_def dest: decimal_inj)

lemma declared_names_lines: "declared_names body = map DEFER_NEWBIE (defer_lines body)"
  by (induction body rule: defer_lines.induct) simp_all

lemma distinct_declared_names: "distinct (declared_names body) \<longleftrightarrow> distinct (defer_lines body)"
  by (simp add: declared_names_lines distinct_map inj_on_def DEFER_NEWBIE_eq_iff)

lemma guard_events_Nil: "guard_events [] = []"
  by (simp add: guard_events_def)

lemma guard_events_Cons:
  "guard_events ((n, g) # locals) = task_events (m_task g) @ guard_events locals"
  by (simp add: guard_events_def)

lemma guard_events_append:
  "guard_events (a @ b) = guard_events a @ guard_events b"
  by (simp add: guard_events_def)

lemma defer_lines_stmts: "defer_lines body = map fst (defer_stmts body)"
  by (induction body rule: defer_stmts.induct) simp_all

text \<open>
  What \<open>run\<close> does to the locals, however the statements end: it pushes one guard for
  each \<^verbatim>\<open>defer\<close> statement it reaches, holding the task of that statement, and leaves
  the locals it was given as they are.
\<close>

lemma run_locals:
  "run body locals w = (c, locals', w') \<Longrightarrow>
     \<exists>reached todo.
       defer_stmts body = reached @ todo \<and>
       locals' = rev (map (\<lambda>(l, b). (DEFER_NEWBIE l, \<lparr>m_task = Target l b\<rparr>)) reached) @ locals \<and>
       (c = FallThrough \<longrightarrow> todo = [])"
proof (induction body locals w arbitrary: c locals' w' rule: run.induct)
  case (1 locals w)
  then show ?case by simp
next
  case (2 f rest locals w)
  then show ?case by (auto split: result.splits)
next
  case (3 cond rest locals w)
  then show ?case by (auto split: if_splits)
next
  case (4 line block rest locals w)
  let ?g = "(DEFER_NEWBIE line, \<lparr>m_task = Target line block\<rparr>)"
  from "4.prems" have "run rest (?g # locals) w = (c, locals', w')"
    by (simp add: defer_macro_eq)
  from "4.IH" [of ?g w, OF _ this] obtain reached todo where
    r: "defer_stmts rest = reached @ todo"
      "locals' = rev (map (\<lambda>(l, b). (DEFER_NEWBIE l, \<lparr>m_task = Target l b\<rparr>)) reached) @ ?g # locals"
      "c = FallThrough \<longrightarrow> todo = []"
    by (auto simp: defer_macro_eq)
  show ?case
    by (rule exI [of _ "(line, block) # reached"], rule exI [of _ todo]) (use r in simp)
next
  case (5 body rest locals w)
  obtain ci inner wi where b: "run body [] w = (ci, inner, wi)" by (cases "run body [] w")
  obtain cu wu where u: "unwind ci inner wi = (cu, wu)" by (cases "unwind ci inner wi")
  show ?case
  proof (cases "cu = FallThrough")
    case True
    with "5.prems" b u have "run rest locals wu = (c, locals', w')" by simp
    from "5.IH"(2) [OF b [symmetric] refl u [symmetric] True this] show ?thesis by simp
  next
    case False
    with "5.prems" b u have "locals' = locals" and "c = cu"
      by (cases cu; simp)+
    with False show ?thesis
      by (intro exI [of _ "[]"] exI [of _ "defer_stmts rest"]) simp
  qed
qed

lemma guard_events_declared:
  "guard_events (rev (map (\<lambda>(l, b). (DEFER_NEWBIE l, \<lparr>m_task = Target l b\<rparr>)) ds)) =
     rev (map (\<lambda>(l, b). Call l) ds)"
  by (induction ds) (auto simp: guard_events_def)

text \<open>
  \<^verbatim>\<open>defer\<close> statements of one scope on pairwise different source lines: the scope
  declares no name twice, and however it is left, the guards it has declared by then
  have pairwise different names and each logs its task.
\<close>

lemma defer_names_distinct_on_distinct_lines:
  assumes "distinct (defer_lines body)"
      and "run body [] w = (c, locals, w1)"
  shows "redeclaration_free body \<and>
         distinct (map fst locals) \<and>
         (\<exists>reached todo. defer_lines body = reached @ todo \<and>
            (c = FallThrough \<longrightarrow> todo = []) \<and>
            map fst locals = rev (map DEFER_NEWBIE reached) \<and>
            trace (snd (exec_block body w)) = trace w1 @ rev (map Call reached))"
proof -
  from run_locals [OF assms(2)] obtain reached todo where
    split: "defer_stmts body = reached @ todo"
    and locals: "locals = rev (map (\<lambda>(l, b). (DEFER_NEWBIE l, \<lparr>m_task = Target l b\<rparr>)) reached)"
    and fall: "c = FallThrough \<longrightarrow> todo = []"
    by auto
  have c: "c \<noteq> Aborted"
    using run_not_Aborted [of body "[]" w] assms(2) by simp
  have lines: "defer_lines body = map fst reached @ map fst todo"
    using split by (simp add: defer_lines_stmts)
  have names: "map fst locals = rev (map DEFER_NEWBIE (map fst reached))"
    unfolding locals by (induction reached) auto
  have "distinct (map fst reached)"
    using assms(1) lines by simp
  then have "distinct (map fst locals)"
    unfolding names by (simp add: distinct_map inj_on_def DEFER_NEWBIE_eq_iff)
  moreover have "redeclaration_free body"
    using assms(1) by (simp add: redeclaration_free_def distinct_declared_names)
  moreover have "trace (snd (exec_block body w)) = trace w1 @ rev (map Call (map fst reached))"
  proof -
    have "guard_events locals = rev (map (\<lambda>(l, b). Call l) reached)"
      unfolding locals by (rule guard_events_declared)
    also have "\<dots> = rev (map Call (map fst reached))"
      by (induction reached) auto
    finally show ?thesis
      using assms(2) c by (simp add: exec_block_def unwind_trace)
  qed
  ultimately show ?thesis
    using lines names fall by (intro conjI exI [of _ "map fst reached"] exI [of _ "map fst todo"]) simp_all
qed

section \<open>Lifetime of one guard\<close>

text \<open>
  Claim C1. For every task \<open>T\<close> (a callable target, numbered \<open>l\<close>, with any body \<open>f\<close>):
  constructing a guard with \<open>T\<close> logs no invocation; destroying that guard, in whatever
  world \<open>w\<close> the program has reached by then, completes and logs exactly one invocation
  of \<open>T\<close>, and leaves the memory as \<open>f\<close> left it; a scope that declares the guard first
  and then runs any statements \<open>rest\<close> logs the invocation once, after everything that
  \<open>rest\<close> logged; and a scope holding nothing but the guard raises the number of
  invocations of \<open>T\<close> by one.
\<close>

theorem Defer_invokes_task_exactly_once:
  "trace (snd (Defer_ctor (Target l f) w0)) = trace w0 \<and>
   Defer_dtor (fst (Defer_ctor (Target l f) w0)) w =
     Completes \<lparr>trace = trace w @ [Call l], mem = state_of (f (mem w))\<rparr> \<and>
   trace (snd (exec_block (DeferStmt l f # rest) w)) =
     trace (snd (exec_block rest w)) @ [Call l] \<and>
   count_list (trace (snd (exec_block [DeferStmt l f] w))) (Call l) =
     count_list (trace w) (Call l) + 1"
proof -
  have ctor: "Defer_ctor (Target l f) w0 = (\<lparr>m_task = Target l f\<rparr>, w0)"
    by (simp add: Defer_ctor_def function_move_def)
  have dtor: "Defer_dtor \<lparr>m_task = Target l f\<rparr> w =
      Completes \<lparr>trace = trace w @ [Call l], mem = state_of (f (mem w))\<rparr>"
    by (simp add: Defer_dtor_Completes split: result.splits)
  have scope: "trace (snd (exec_block (DeferStmt l f # rest) w)) =
      trace (snd (exec_block rest w)) @ [Call l]"
    using exec_block_defer_trace [OF run_Nil_eq, of l f rest w]
    by (simp add: guard_events_Nil)
  have alone: "trace (snd (exec_block [DeferStmt l f] w)) = trace w @ [Call l]"
    using exec_block_defer_trace [OF run_Nil_eq, of l f "[]" w]
    by (simp add: guard_events_Nil exec_block_def)
  show ?thesis
    using ctor dtor scope alone by simp
qed

theorem Defer_invokes_task_exactly_once_witness:
  "trace (snd (Defer_ctor (Target 4 (\<lambda>m. Returns (m + 1))) \<lparr>trace = [], mem = 0::nat\<rparr>)) = [] \<and>
   Defer_dtor (fst (Defer_ctor (Target 4 (\<lambda>m. Returns (m + 1))) \<lparr>trace = [], mem = 0::nat\<rparr>))
       \<lparr>trace = [Call 9], mem = 5\<rparr> =
     Completes \<lparr>trace = [Call 9, Call 4], mem = 6\<rparr> \<and>
   trace (snd (exec_block [DeferStmt 4 (\<lambda>m. Returns (m + 1)), Exec (\<lambda>m. Returns (m * 2))]
       \<lparr>trace = [], mem = 3::nat\<rparr>)) = [Call 4] \<and>
   count_list (trace (snd (exec_block [DeferStmt 4 (\<lambda>m. Returns (m + 1))]
       \<lparr>trace = [Call 4], mem = 3::nat\<rparr>))) (Call 4) = 2"
  using Defer_invokes_task_exactly_once [of 4 "\<lambda>m. Returns (m + 1)" "\<lparr>trace = [], mem = 0::nat\<rparr>"
      "\<lparr>trace = [Call 9], mem = 5\<rparr>" "[]"]
    Defer_invokes_task_exactly_once [of 4 "\<lambda>m. Returns (m + 1)" "\<lparr>trace = [], mem = 0::nat\<rparr>"
      "\<lparr>trace = [], mem = 3::nat\<rparr>" "[Exec (\<lambda>m. Returns (m * 2))]"]
    Defer_invokes_task_exactly_once [of 4 "\<lambda>m. Returns (m + 1)" "\<lparr>trace = [], mem = 0::nat\<rparr>"
      "\<lparr>trace = [Call 4], mem = 3::nat\<rparr>" "[]"]
  by (simp add: exec_block_def)

text \<open>
  Claim C2. For every task whose body raises an error \<open>e\<close> in the memory at hand: the
  call of the task does raise \<open>e\<close>, and yet the destructor of the guard that owns the
  task completes (it neither raises nor terminates the process), keeping the invocation
  in the log and the memory as the task left it. A scope that holds only this guard
  falls through, and a scope that declares the guard before any statements \<open>rest\<close> is
  left the way \<open>rest\<close> leaves it, which is never by termination.
\<close>

theorem Defer_dtor_discards_task_error:
  assumes "f (mem w) = Raises e m"
  shows "function_call (Target l f) w = Raises e \<lparr>trace = trace w @ [Call l], mem = m\<rparr> \<and>
         Defer_dtor (fst (Defer_ctor (Target l f) w0)) w =
           Completes \<lparr>trace = trace w @ [Call l], mem = m\<rparr> \<and>
         exec_block [DeferStmt l f] w = (FallThrough, \<lparr>trace = trace w @ [Call l], mem = m\<rparr>) \<and>
         fst (exec_block (DeferStmt l f # rest) w) = fst (exec_block rest w) \<and>
         fst (exec_block (DeferStmt l f # rest) w) \<noteq> Aborted"
proof -
  have call: "function_call (Target l f) w = Raises e \<lparr>trace = trace w @ [Call l], mem = m\<rparr>"
    using assms by simp
  have dtor: "Defer_dtor (fst (Defer_ctor (Target l f) w0)) w =
      Completes \<lparr>trace = trace w @ [Call l], mem = m\<rparr>"
    using assms by (simp add: Defer_ctor_def function_move_def Defer_dtor_Completes)
  have alone: "exec_block [DeferStmt l f] w =
      (FallThrough, \<lparr>trace = trace w @ [Call l], mem = m\<rparr>)"
  proof -
    have "exec_block [] w = (FallThrough, w)" by (simp add: exec_block_def)
    with assms exec_block_defer_head [of l f "[]" w] show ?thesis by simp
  qed
  have way: "fst (exec_block (DeferStmt l f # rest) w) = fst (exec_block rest w)"
    using exec_block_defer_fst [OF run_Nil_eq, of l f rest w] by simp
  show ?thesis
    using call dtor alone way exec_block_not_Aborted [of "DeferStmt l f # rest" w]
    by simp
qed

theorem Defer_dtor_discards_task_error_witness:
  "(\<lambda>m. Raises (other_exception 1) (m + 1)) (mem \<lparr>trace = [], mem = 0::nat\<rparr>) =
     Raises (other_exception 1) 1 \<and>
   function_call (Target 4 (\<lambda>m. Raises (other_exception 1) (m + 1))) \<lparr>trace = [], mem = 0::nat\<rparr> =
     Raises (other_exception 1) \<lparr>trace = [Call 4], mem = 1\<rparr> \<and>
   Defer_dtor (fst (Defer_ctor (Target 4 (\<lambda>m. Raises (other_exception 1) (m + 1)))
       \<lparr>trace = [], mem = 0::nat\<rparr>)) \<lparr>trace = [], mem = 0::nat\<rparr> =
     Completes \<lparr>trace = [Call 4], mem = 1\<rparr> \<and>
   exec_block [DeferStmt 4 (\<lambda>m. Raises (other_exception 1) (m + 1))] \<lparr>trace = [], mem = 0::nat\<rparr> =
     (FallThrough, \<lparr>trace = [Call 4], mem = 1\<rparr>)"
  using Defer_dtor_discards_task_error [of "\<lambda>m. Raises (other_exception 1) (m + 1)"
      "\<lparr>trace = [], mem = 0::nat\<rparr>" "other_exception 1" 1 4 "\<lparr>trace = [], mem = 0::nat\<rparr>" "[]"]
  by simp

section \<open>Guards in scopes\<close>





text \<open>
  Claim C9. Take a scope that declares a guard on line \<open>lo\<close> and later holds a nested
  compound statement that declares a guard on line \<open>li\<close>; \<open>pre\<close>, \<open>mid\<close> and \<open>post\<close> are
  the other statements of the scope, \<open>ipre\<close> and \<open>irest\<close> those of the nested statement.
  Whenever both declarations are reached, the nested statement ends the way \<open>irest\<close>
  leaves it, and it ends by logging the inner task right after what \<open>irest\<close> logged
  (followed by the tasks of the guards \<open>ipre\<close> declared). The locals of the enclosing
  scope are then the guards \<open>qs\<close> declared after the nested statement, those of \<open>mid\<close>,
  the guard of line \<open>lo\<close> and those of \<open>pre\<close>; in the log of the whole scope the tasks
  of all of them, the outer task among them, come strictly after the end of the nested
  statement.
\<close>

theorem nested_guard_runs_before_enclosing_guard:
  assumes "run pre [] w = (FallThrough, ps, w1)"
      and "run mid [] w1 = (FallThrough, ms, w2)"
      and "run ipre [] w2 = (FallThrough, ips, w3)"
      and "exec_block irest w3 = (ci, w4)"
  shows "\<exists>w5 later qs.
           exec_block (ipre @ DeferStmt li bi # irest) w2 = (ci, w5) \<and>
           trace w5 = trace w4 @ [Call li] @ guard_events ips \<and>
           fst (snd (run
              (pre @ DeferStmt lo bo # mid @ Block (ipre @ DeferStmt li bi # irest) # post) [] w)) =
             qs @ ms @ (DEFER_NEWBIE lo, \<lparr>m_task = Target lo bo\<rparr>) # ps \<and>
           trace (snd (exec_block
              (pre @ DeferStmt lo bo # mid @ Block (ipre @ DeferStmt li bi # irest) # post) w)) =
             trace w5 @ later @ guard_events qs @ guard_events ms @ [Call lo] @ guard_events ps"
proof -
  let ?nested = "ipre @ DeferStmt li bi # irest"
  let ?g = "(DEFER_NEWBIE lo, \<lparr>m_task = Target lo bo\<rparr>)"
  let ?outer = "pre @ DeferStmt lo bo # mid @ Block ?nested # post"
  obtain w5 where w5: "w5 = snd (exec_block ?nested w2)" by simp
  have "fst (exec_block ?nested w2) = ci"
    using assms(4) by (simp add: exec_block_defer_fst [OF assms(3)])
  with w5 have nested: "exec_block ?nested w2 = (ci, w5)" by (simp add: prod_eq_iff)
  have t5: "trace w5 = trace w4 @ [Call li] @ guard_events ips"
    using assms(4) w5 by (simp add: exec_block_defer_trace [OF assms(3)])
  have ci: "ci \<noteq> Aborted"
    using exec_block_not_Aborted [of irest w3] assms(4) by simp
  have reach: "run ?outer [] w = run (Block ?nested # post) (ms @ ?g # ps) w2"
    using assms(1) assms(2) run_stack [of mid "?g # ps" w1]
    by (simp add: run_append defer_macro_eq del: run.simps(5))
  have "\<exists>c later qs w6. run ?outer [] w = (c, qs @ ms @ ?g # ps, w6) \<and> c \<noteq> Aborted \<and>
          trace w6 = trace w5 @ later"
  proof (cases "ci = FallThrough")
    case True
    obtain c new w6 where p: "run post [] w5 = (c, new, w6)" by (cases "run post [] w5")
    with run_not_Aborted [of post "[]" w5] have c: "c \<noteq> Aborted" by simp
    from run_trace_mono [of post "[]" w5] p obtain xs where xs: "trace w6 = trace w5 @ xs"
      by auto
    have "run ?outer [] w = (c, new @ ms @ ?g # ps, w6)"
      using reach nested True p run_stack [of post "ms @ ?g # ps" w5]
      by (simp add: run_Block del: run.simps)
    with c xs show ?thesis by blast
  next
    case False
    have "run ?outer [] w = (ci, [] @ ms @ ?g # ps, w5)"
      using reach nested False
      by (cases ci) (simp_all add: run_Block del: run.simps)
    moreover have "trace w5 = trace w5 @ []" by simp
    ultimately show ?thesis using ci by blast
  qed
  then obtain c later qs w6 where r: "run ?outer [] w = (c, qs @ ms @ ?g # ps, w6)"
    and c: "c \<noteq> Aborted" and t6: "trace w6 = trace w5 @ later"
    by blast
  from r have locals: "fst (snd (run ?outer [] w)) = qs @ ms @ ?g # ps" by simp
  from r c t6 have "trace (snd (exec_block ?outer w)) =
      trace w5 @ later @ guard_events qs @ guard_events ms @ [Call lo] @ guard_events ps"
    by (simp add: exec_block_def unwind_trace guard_events_append guard_events_Cons)
  with nested t5 locals show ?thesis by blast
qed

theorem nested_guard_runs_before_enclosing_guard_witness:
  "run [] [] \<lparr>trace = [], mem = 0::nat\<rparr> = (FallThrough, [], \<lparr>trace = [], mem = 0\<rparr>) \<and>
   run [Exec (\<lambda>m. Returns (m + 1))] [] \<lparr>trace = [], mem = 0::nat\<rparr> =
     (FallThrough, [], \<lparr>trace = [], mem = 1\<rparr>) \<and>
   run [] [] \<lparr>trace = [], mem = 1::nat\<rparr> = (FallThrough, [], \<lparr>trace = [], mem = 1\<rparr>) \<and>
   exec_block [Exec (\<lambda>m. Returns (m * 3))] \<lparr>trace = [], mem = 1::nat\<rparr> =
     (FallThrough, \<lparr>trace = [], mem = 3\<rparr>) \<and>
   exec_block
     [DeferStmt 1 (\<lambda>m. Returns (m + 100)), Exec (\<lambda>m. Returns (m + 1)),
      Block [DeferStmt 3 (\<lambda>m. Returns (m + 10)), Exec (\<lambda>m. Returns (m * 3))],
      DeferStmt 6 Returns]
     \<lparr>trace = [], mem = 0::nat\<rparr> =
   (FallThrough, \<lparr>trace = [Call 3, Call 6, Call 1], mem = 113\<rparr>)"
proof -
  have h1: "run [] [] \<lparr>trace = [], mem = 0::nat\<rparr> = (FallThrough, [], \<lparr>trace = [], mem = 0\<rparr>)"
    by simp
  have h2: "run [Exec (\<lambda>m. Returns (m + 1))] [] \<lparr>trace = [], mem = 0::nat\<rparr> =
      (FallThrough, [], \<lparr>trace = [], mem = 1\<rparr>)"
    by simp
  have h3: "run [] [] \<lparr>trace = [], mem = 1::nat\<rparr> = (FallThrough, [], \<lparr>trace = [], mem = 1\<rparr>)"
    by simp
  have h4: "exec_block [Exec (\<lambda>m. Returns (m * 3))] \<lparr>trace = [], mem = 1::nat\<rparr> =
      (FallThrough, \<lparr>trace = [], mem = 3\<rparr>)"
    by (simp add: exec_block_def)
  show ?thesis
    using h1 h2 h3 h4
      nested_guard_runs_before_enclosing_guard [OF h1 h2 h3 h4, of 3 "\<lambda>m. Returns (m + 10)"
        1 "\<lambda>m. Returns (m + 100)" "[DeferStmt 6 Returns]"]
    by (simp add: exec_block_def defer_macro_eq Defer_dtor_Completes)
qed

section \<open>The names the macro gives its guards\<close>

text \<open>
  Claim C5. The claim says that every use of the marker in one scope binds its guard to
  a variable with a name of its own. The header says the same of its helper macros
  (\<^verbatim>\<open>// Internal macro helpers for generating unique variable names.\<close>), but the name
  is made from \<^verbatim>\<open>__LINE__\<close> alone. At two \<^verbatim>\<open>defer\<close> statements on line 7 of one scope
  both declare \<^verbatim>\<open>__defer_newbie_7\<close>: the scope declares that name twice. The same two
  statements on lines 7 and 8 declare two names.
\<close>

theorem defer_same_line_redeclares_name:
  "declared_names [DeferStmt 7 Returns, DeferStmt 7 (Raises (other_exception 0)) :: unit stmt] =
     [''__defer_newbie_7'', ''__defer_newbie_7''] \<and>
   \<not> redeclaration_free
        [DeferStmt 7 Returns, DeferStmt 7 (Raises (other_exception 0)) :: unit stmt] \<and>
   redeclaration_free
        [DeferStmt 7 Returns, DeferStmt 8 (Raises (other_exception 0)) :: unit stmt]"
  by (simp add: redeclaration_free_def DEFER_NEWBIE_def DEFER_CONCAT_def decimal.simps
        digit_char_def)

section \<open>Ownership of the task\<close>




section \<open>The block and the enclosing variables\<close>

text \<open>
  Claim C7. The guard that a \<^verbatim>\<open>defer\<close> statement makes is the same whatever the
  world at the statement is: it holds no copy of the variables. The deferred block runs
  on the memory of the enclosing scope as it is when the scope is left, after everything
  the statements following the \<^verbatim>\<open>defer\<close> statement did to it; and the memory after
  the scope is the one the block left, so what the block changes is seen outside.
\<close>

theorem deferred_block_sees_live_memory:
  "snd (fst (defer_macro l b w)) = snd (fst (defer_macro l b w')) \<and>
   mem (snd (exec_block (DeferStmt l b # rest) w)) =
     state_of (b (mem (snd (exec_block rest w))))"
  by (simp add: defer_macro_eq exec_block_defer_head mem_function_call_Target
        del: function_call.simps)

text \<open>
  With two variables \<open>(x, y)\<close>, starting from \<open>x = 1\<close>:
  \<^verbatim>\<open>defer { y = x; x = x + 10; }; x = 2;\<close> ends with \<open>x = 12\<close> and \<open>y = 2\<close>.
\<close>

theorem deferred_block_sees_live_memory_witness:
  "mem (snd (exec_block (DeferStmt 2 (\<lambda>(x, y). Returns (x + 10, x)) #
       [Exec (\<lambda>(x, y). Returns (2, y))]) \<lparr>trace = [], mem = (1::nat, 0::nat)\<rparr>)) = (12, 2)"
  using deferred_block_sees_live_memory [of 2 "\<lambda>(x, y). Returns (x + 10, x)"
      "\<lparr>trace = [], mem = (1::nat, 0::nat)\<rparr>" "\<lparr>trace = [], mem = (1::nat, 0::nat)\<rparr>"
      "[Exec (\<lambda>(x, y). Returns (2, y))]"]
  by (simp add: exec_block_def)

section \<open>Construction and the empty function\<close>

text \<open>
  Claim C8. Constructing a guard from a task stores exactly that task in the guard and
  leaves the world as it was: nothing is logged (no task is invoked) and the memory is
  unchanged. The same holds for \<^verbatim>\<open>operator|\<close>, and a \<^verbatim>\<open>defer\<close> statement only pushes
  the new guard, under its name, on the locals of the scope.
\<close>

theorem Defer_ctor_only_takes_the_task:
  "Defer_ctor task w = (\<lparr>m_task = task\<rparr>, w) \<and>
   operator_pipe DeferTaskTag task w = (\<lparr>m_task = task\<rparr>, w) \<and>
   run [DeferStmt l b] locals w =
     (FallThrough, (DEFER_NEWBIE l, \<lparr>m_task = Target l b\<rparr>) # locals, w)"
  by (simp add: Defer_ctor_def operator_pipe_def function_move_def defer_macro_def)

theorem Defer_ctor_only_takes_the_task_witness:
  "Defer_ctor (Target 8 (\<lambda>m. Raises bad_function_call (m + 1))) \<lparr>trace = [Call 2], mem = 5::nat\<rparr> =
     (\<lparr>m_task = Target 8 (\<lambda>m. Raises bad_function_call (m + 1))\<rparr>, \<lparr>trace = [Call 2], mem = 5\<rparr>)"
  using Defer_ctor_only_takes_the_task [of "Target 8 (\<lambda>m. Raises bad_function_call (m + 1))"
      "\<lparr>trace = [Call 2], mem = 5::nat\<rparr>"]
  by simp

text \<open>
  Claim C10. A guard constructed with an empty \<^verbatim>\<open>std::function\<close>: calling the empty
  function raises \<^verbatim>\<open>bad_function_call\<close>, and the destructor of the guard still
  completes, with the world unchanged; a scope that declares such a guard is left the
  way its remaining statements leave it.
\<close>

theorem Defer_dtor_discards_bad_function_call:
  "function_call EmptyFunction w = Raises bad_function_call w \<and>
   Defer_dtor (fst (Defer_ctor EmptyFunction w0)) w = Completes w \<and>
   unwind c [(name, fst (Defer_ctor EmptyFunction w0))] w = (c, w)"
  by (cases c) (simp_all add: Defer_ctor_def function_move_def Defer_dtor_Completes)

theorem Defer_dtor_discards_bad_function_call_witness:
  "Defer_dtor (fst (Defer_ctor EmptyFunction \<lparr>trace = [], mem = 0::nat\<rparr>))
       \<lparr>trace = [Call 1], mem = 7::nat\<rparr> =
     Completes \<lparr>trace = [Call 1], mem = 7\<rparr> \<and>
   unwind (Thrown (other_exception 2))
       [(''g'', fst (Defer_ctor EmptyFunction \<lparr>trace = [], mem = 0::nat\<rparr>))]
       \<lparr>trace = [Call 1], mem = 7::nat\<rparr> =
     (Thrown (other_exception 2), \<lparr>trace = [Call 1], mem = 7\<rparr>)"
  using Defer_dtor_discards_bad_function_call [of "\<lparr>trace = [Call 1], mem = 7::nat\<rparr>"
      "\<lparr>trace = [], mem = 0::nat\<rparr>" "Thrown (other_exception 2)" "''g''"]
  by simp

end
